theory Spec2Isabelle
  imports Main
begin

section \<open>Data model\<close>

text \<open>
  The program (\<^verbatim>\<open>src/app.py\<close>) works on pandas data frames. A frame is modelled
  by its ordered columns (label and dtype) and its ordered rows, each row holding one
  cell per column.

  \<^item> A cell is a string, a number, a timestamp or the missing marker. The one
    constructor \<open>Missing\<close> stands for every null value of pandas (\<^verbatim>\<open>None\<close>,
    \<^verbatim>\<open>NaN\<close>, \<^verbatim>\<open>pd.NA\<close>): the model does not tell them apart, as \<^verbatim>\<open>isna()\<close>
    does not. Numbers are integers; floating-point values are outside the model.
  \<^item> A column label is a string or a number (\<^verbatim>\<open>read_excel\<close> yields both).
  \<^item> Of the dtype only \<^verbatim>\<open>object\<close> against the rest matters to the program
    (\<^verbatim>\<open>select_dtypes(include="object")\<close>).
  \<^item> Strings are lists of characters; the character classes of Python
    (\<^verbatim>\<open>str.strip\<close>, \<^verbatim>\<open>str.lower\<close>) are modelled on the ASCII range, characters above
    it are neither whitespace nor cased.
\<close>

datatype cell = Str string | Num int | Date int | Missing

datatype label = LStr string | LNum int

datatype dtype = Object | Int64 | Datetime64

record table =
  columns :: "(label \<times> dtype) list"
  rows :: "cell list list"

text \<open>The exceptions of Python that the modelled code can raise.\<close>

datatype error = AttributeError | ValueError | KeyError

definition labels :: "table \<Rightarrow> label list" where
  "labels df = map fst (columns df)"

text \<open>The frame invariant of pandas: every row has one cell per column.\<close>

definition wf_table :: "table \<Rightarrow> bool" where
  "wf_table df = list_all (\<lambda>r. length r = length (columns df)) (rows df)"

section \<open>Python strings\<close>

text \<open>
  \<^verbatim>\<open>str.isspace\<close> on one ASCII character: tab, line feed, vertical tab, form feed,
  carriage return, the four separators \<^verbatim>\<open>0x1c\<close> to \<^verbatim>\<open>0x1f\<close>, and the space.
\<close>

definition is_space :: "char \<Rightarrow> bool" where
  "is_space c = (let n = (of_char c :: nat) in (9 \<le> n \<and> n \<le> 13) \<or> (28 \<le> n \<and> n \<le> 32))"

text \<open>\<^verbatim>\<open>str.strip()\<close>: drop leading and trailing whitespace.\<close>

definition strip :: "string \<Rightarrow> string" where
  "strip s = rev (dropWhile is_space (rev (dropWhile is_space s)))"

definition is_upper :: "char \<Rightarrow> bool" where
  "is_upper c = (let n = (of_char c :: nat) in 65 \<le> n \<and> n \<le> 90)"

definition lower_char :: "char \<Rightarrow> char" where
  "lower_char c = (if is_upper c then char_of (of_char c + (32 :: nat)) else c)"

text \<open>\<^verbatim>\<open>str.lower()\<close>.\<close>

definition lower :: "string \<Rightarrow> string" where
  "lower s = map lower_char s"

text \<open>\<^verbatim>\<open>str.replace(" ", "_")\<close>: both strings are one character long.\<close>

definition replace_space :: "string \<Rightarrow> string" where
  "replace_space s = map (\<lambda>c. if c = CHR '' '' then CHR ''_'' else c) s"

text \<open>\<^verbatim>\<open>str(n)\<close> of an integer, as \<^verbatim>\<open>astype(str)\<close> and the f-strings print it.\<close>

fun str_nat :: "nat \<Rightarrow> string" where
  "str_nat n = (if n < 10 then [char_of (48 + n)] else str_nat (n div 10) @ [char_of (48 + n mod 10)])"

definition str_int :: "int \<Rightarrow> string" where
  "str_int i = (if i < 0 then CHR ''-'' # str_nat (nat (- i)) else str_nat (nat i))"

section \<open>normalize_columns\<close>

text \<open>\<^verbatim>\<open>Index.astype(str)\<close> on one label.\<close>

fun astype_str :: "label \<Rightarrow> string" where
  "astype_str (LStr s) = s"
| "astype_str (LNum i) = str_int i"

text \<open>The chain \<^verbatim>\<open>.astype(str).str.strip().str.lower().str.replace(" ", "_")\<close> on one label.\<close>

definition normalize_name :: "string \<Rightarrow> string" where
  "normalize_name s = replace_space (lower (strip s))"

definition normalize_label :: "label \<Rightarrow> label" where
  "normalize_label l = LStr (normalize_name (astype_str l))"

text \<open>
  \<^verbatim>\<open>normalize_columns\<close>: a copy of the frame whose labels are replaced, position by
  position; dtypes and rows are those of the input.
\<close>

definition normalize_columns :: "table \<Rightarrow> table" where
  "normalize_columns df = df\<lparr>columns := map (\<lambda>(l, d). (normalize_label l, d)) (columns df)\<rparr>"

section \<open>Duplicate rows\<close>

text \<open>
  \<^verbatim>\<open>DataFrame.duplicated()\<close> with \<^verbatim>\<open>keep="first"\<close>: the mask that is true at every
  row equal to an earlier one. On an empty frame (no row, or no column) pandas returns
  an empty mask.
\<close>

fun dup_mask :: "cell list list \<Rightarrow> cell list list \<Rightarrow> bool list" where
  "dup_mask seen [] = []"
| "dup_mask seen (r # rs) = (r \<in> set seen) # dup_mask (r # seen) rs"

definition empty_frame :: "table \<Rightarrow> bool" where
  "empty_frame df = (columns df = [] \<or> rows df = [])"

definition duplicated :: "table \<Rightarrow> bool list" where
  "duplicated df = (if empty_frame df then [] else dup_mask [] (rows df))"

text \<open>\<^verbatim>\<open>df.duplicated().sum()\<close>.\<close>

definition dup_count :: "table \<Rightarrow> nat" where
  "dup_count df = length (filter (\<lambda>b. b) (duplicated df))"

text \<open>
  \<^verbatim>\<open>DataFrame.drop_duplicates()\<close>: an empty frame is returned as it is; otherwise
  the rows whose mask is false are kept, in their order.
\<close>

definition drop_duplicates :: "table \<Rightarrow> table" where
  "drop_duplicates df =
     (if empty_frame df then df
      else df\<lparr>rows := map snd (filter (\<lambda>(b, r). \<not> b) (zip (duplicated df) (rows df)))\<rparr>)"

section \<open>clean_data\<close>

text \<open>\<^verbatim>\<open>df.select_dtypes(include="object")\<close>, iterated: the labels of the object columns.\<close>

definition select_object :: "table \<Rightarrow> label list" where
  "select_object df = map fst (filter (\<lambda>(l, d). d = Object) (columns df))"

text \<open>The positions at which a label stands among the columns.\<close>

definition positions :: "table \<Rightarrow> label \<Rightarrow> nat list" where
  "positions df c = filter (\<lambda>j. fst (columns df ! j) = c) [0..<length (columns df)]"

text \<open>
  \<^verbatim>\<open>df[col]\<close>: a series when the label stands at one position, a frame when it
  stands at several, \<^verbatim>\<open>KeyError\<close> when it stands at none. The series carries its
  position, at which the assignment \<^verbatim>\<open>df[col] = ...\<close> of the loop writes.
\<close>

datatype selection = Series nat "cell list" | Frame "nat list"

definition getitem :: "table \<Rightarrow> label \<Rightarrow> error + selection" where
  "getitem df c =
     (case positions df c of
        [] \<Rightarrow> Inl KeyError
      | [j] \<Rightarrow> Inr (Series j (map (\<lambda>r. r ! j) (rows df)))
      | js \<Rightarrow> Inr (Frame js))"

text \<open>
  \<^verbatim>\<open>lib.infer_dtype(values, skipna=True)\<close> on an object array, as the \<^verbatim>\<open>.str\<close>
  accessor calls it: the kind of the first value that is not null decides which
  homogeneity test runs; a mixed array is \<^verbatim>\<open>mixed-integer\<close> when it holds an integer.
\<close>

datatype inferred = IEmpty | IString | IInteger | IDatetime | IMixed | IMixedInteger

fun is_str :: "cell \<Rightarrow> bool" where
  "is_str (Str s) = True"
| "is_str c = False"

fun is_num :: "cell \<Rightarrow> bool" where
  "is_num (Num n) = True"
| "is_num c = False"

fun is_date :: "cell \<Rightarrow> bool" where
  "is_date (Date n) = True"
| "is_date c = False"

fun isna :: "cell \<Rightarrow> bool" where
  "isna Missing = True"
| "isna c = False"

definition mixed_kind :: "cell list \<Rightarrow> inferred" where
  "mixed_kind vs = (if list_ex is_num vs then IMixedInteger else IMixed)"

definition infer_dtype :: "cell list \<Rightarrow> inferred" where
  "infer_dtype vs =
     (case filter (\<lambda>v. \<not> isna v) vs of
        [] \<Rightarrow> IEmpty
      | Str s # _ \<Rightarrow> if list_all (\<lambda>v. isna v \<or> is_str v) vs then IString else mixed_kind vs
      | Num n # _ \<Rightarrow> if list_all (\<lambda>v. isna v \<or> is_num v) vs then IInteger else IMixedInteger
      | Date n # _ \<Rightarrow> if list_all (\<lambda>v. isna v \<or> is_date v) vs then IDatetime else mixed_kind vs
      | Missing # _ \<Rightarrow> IEmpty)"

text \<open>
  The \<^verbatim>\<open>.str\<close> accessor: a frame has none, and a series must infer to one of
  \<^verbatim>\<open>string\<close>, \<^verbatim>\<open>empty\<close>, \<^verbatim>\<open>mixed\<close>, \<^verbatim>\<open>mixed-integer\<close>; otherwise
  \<^verbatim>\<open>AttributeError\<close>.
\<close>

definition str_accessor :: "selection \<Rightarrow> error + (nat \<times> cell list)" where
  "str_accessor sel =
     (case sel of
        Frame js \<Rightarrow> Inl AttributeError
      | Series j vs \<Rightarrow>
          if infer_dtype vs \<in> {IString, IEmpty, IMixed, IMixedInteger} then Inr (j, vs)
          else Inl AttributeError)"

text \<open>
  \<^verbatim>\<open>.str.strip()\<close> on one element of an object series: a string is stripped, every
  other element (a null, a number, a timestamp) becomes \<^verbatim>\<open>NaN\<close>.
\<close>

fun str_strip :: "cell \<Rightarrow> cell" where
  "str_strip (Str s) = Str (strip s)"
| "str_strip c = Missing"

text \<open>\<^verbatim>\<open>.replace("", pd.NA)\<close> on one element.\<close>

definition replace_empty :: "cell \<Rightarrow> cell" where
  "replace_empty c = (if c = Str [] then Missing else c)"

text \<open>\<^verbatim>\<open>df[col] = values\<close> for a label that stands at position \<open>j\<close>.\<close>

definition setitem :: "table \<Rightarrow> nat \<Rightarrow> cell list \<Rightarrow> table" where
  "setitem df j vs = df\<lparr>rows := map (\<lambda>(r, v). r[j := v]) (zip (rows df) vs)\<rparr>"

text \<open>The body of the loop of \<^verbatim>\<open>clean_data\<close>, for one label.\<close>

definition clean_column :: "table \<Rightarrow> label \<Rightarrow> error + table" where
  "clean_column df c =
     (case getitem df c of
        Inl e \<Rightarrow> Inl e
      | Inr sel \<Rightarrow>
          (case str_accessor sel of
             Inl e \<Rightarrow> Inl e
           | Inr (j, vs) \<Rightarrow> Inr (setitem df j (map (replace_empty \<circ> str_strip) vs))))"

text \<open>The loop: the labels were read off before it starts; the first exception ends it.\<close>

fun clean_loop :: "label list \<Rightarrow> table \<Rightarrow> error + table" where
  "clean_loop [] df = Inr df"
| "clean_loop (c # cs) df =
     (case clean_column df c of Inl e \<Rightarrow> Inl e | Inr df' \<Rightarrow> clean_loop cs df')"

definition clean_data :: "table \<Rightarrow> error + table" where
  "clean_data df0 =
     (let df = normalize_columns df0 in
      case clean_loop (select_object df) df of
        Inl e \<Rightarrow> Inl e
      | Inr df' \<Rightarrow> Inr (drop_duplicates df'))"

section \<open>validate_data\<close>

text \<open>
  \<^verbatim>\<open>df[col].isna().sum()\<close> followed by the test \<^verbatim>\<open>missing_count > 0\<close>: on a
  series the sum is a number; on a frame it is a series, whose truth value raises
  \<^verbatim>\<open>ValueError\<close>.
\<close>

definition missing_count :: "table \<Rightarrow> label \<Rightarrow> error + nat" where
  "missing_count df c =
     (case getitem df c of
        Inl e \<Rightarrow> Inl e
      | Inr (Series j vs) \<Rightarrow> Inr (length (filter isna vs))
      | Inr (Frame js) \<Rightarrow> Inl ValueError)"

definition dup_issue :: "nat \<Rightarrow> string" where
  "dup_issue n = str_nat n @ '' duplicate rows found''"

definition missing_column_issue :: "string \<Rightarrow> string" where
  "missing_column_issue col = ''Missing required column: '' @ col"

definition missing_values_issue :: "string \<Rightarrow> nat \<Rightarrow> string" where
  "missing_values_issue col n =
     ''Column '' @ [CHR 0x27] @ col @ [CHR 0x27] @ '' has '' @ str_nat n @ '' missing values''"

text \<open>The loop over the required columns, the issue list threaded through it.\<close>

fun required_loop :: "table \<Rightarrow> string list \<Rightarrow> string list \<Rightarrow> error + string list" where
  "required_loop df [] issues = Inr issues"
| "required_loop df (col # cols) issues =
     (if LStr col \<notin> set (labels df)
      then required_loop df cols (issues @ [missing_column_issue col])
      else
        (case missing_count df (LStr col) of
           Inl e \<Rightarrow> Inl e
         | Inr n \<Rightarrow>
             if n > 0 then required_loop df cols (issues @ [missing_values_issue col n])
             else required_loop df cols issues))"

definition validate_data :: "table \<Rightarrow> string list \<Rightarrow> error + string list" where
  "validate_data df required_columns =
     (let n = dup_count df;
          issues = (if n > 0 then [dup_issue n] else [])
      in required_loop df required_columns issues)"

section \<open>The validation report\<close>

text \<open>\<^verbatim>\<open>pd.DataFrame({name: values})\<close> for one column of strings.\<close>

definition DataFrame1 :: "string \<Rightarrow> string list \<Rightarrow> table" where
  "DataFrame1 name vs = \<lparr>columns = [(LStr name, Object)], rows = map (\<lambda>v. [Str v]) vs\<rparr>"

text \<open>The expression bound to \<^verbatim>\<open>report\<close> (lines 130 to 134).\<close>

definition report :: "string list \<Rightarrow> table" where
  "report issues =
     (if issues \<noteq> [] then DataFrame1 ''Validation_Issues'' issues
      else DataFrame1 ''Validation_Issues'' [''No issues found''])"

section \<open>Notions used to state the properties\<close>

text \<open>A string without leading or trailing whitespace.\<close>

definition trimmed :: "string \<Rightarrow> bool" where
  "trimmed s = (s = [] \<or> (\<not> is_space (hd s) \<and> \<not> is_space (last s)))"

text \<open>
  The rows that the mask of \<open>dup_mask\<close> keeps: each row that equals neither an
  earlier row nor a row of \<open>seen\<close>, in order.
\<close>

definition kept :: "cell list list \<Rightarrow> cell list list \<Rightarrow> cell list list" where
  "kept seen rs = map snd (filter (\<lambda>(b, r). \<not> b) (zip (dup_mask seen rs) rs))"

text \<open>What the loop of \<^verbatim>\<open>clean_data\<close> does to one cell of an object column.\<close>

definition clean_cell :: "cell \<Rightarrow> cell" where
  "clean_cell = replace_empty \<circ> str_strip"

text \<open>The values of the column at position \<open>j\<close>.\<close>

definition column :: "table \<Rightarrow> nat \<Rightarrow> cell list" where
  "column df j = map (\<lambda>r. r ! j) (rows df)"

text \<open>The values on which the \<^verbatim>\<open>.str\<close> accessor does not raise.\<close>

definition str_ok :: "cell list \<Rightarrow> bool" where
  "str_ok vs = (infer_dtype vs \<in> {IString, IEmpty, IMixed, IMixedInteger})"

text \<open>A row with the cells under the labels \<open>cs\<close> cleaned.\<close>

definition clean_by :: "label list \<Rightarrow> (label \<times> dtype) list \<Rightarrow> cell list \<Rightarrow> cell list" where
  "clean_by cs cols r = map (\<lambda>((l, d), x). if l \<in> set cs then clean_cell x else x) (zip cols r)"

text \<open>A row with the cells of the object columns cleaned.\<close>

definition clean_row :: "(label \<times> dtype) list \<Rightarrow> cell list \<Rightarrow> cell list" where
  "clean_row cols r = map (\<lambda>((l, d), x). if d = Object then clean_cell x else x) (zip cols r)"

text \<open>The frame with the column at position \<open>j\<close> cleaned.\<close>

definition clean_at :: "nat \<Rightarrow> table \<Rightarrow> table" where
  "clean_at j df = df\<lparr>rows := map (\<lambda>r. r[j := clean_cell (r ! j)]) (rows df)\<rparr>"

text \<open>The frame after normalisation and string cleaning, before duplicates are dropped.\<close>

definition strings_cleaned :: "table \<Rightarrow> table" where
  "strings_cleaned df = (normalize_columns df)\<lparr>rows := map (clean_row (columns df)) (rows df)\<rparr>"

text \<open>A normalized column name: trimmed, without a space and without an upper-case letter.\<close>

definition is_normalized :: "string \<Rightarrow> bool" where
  "is_normalized s = (trimmed s \<and> CHR '' '' \<notin> set s \<and> list_all (\<lambda>c. \<not> is_upper c) s)"

text \<open>
  A row read as a mapping from column label to cell, and the number of rows whose
  cell under a label is the missing marker.
\<close>

definition cell_of :: "table \<Rightarrow> cell list \<Rightarrow> label \<Rightarrow> cell option" where
  "cell_of df r c = map_of (zip (labels df) r) c"

definition missing_in :: "table \<Rightarrow> label \<Rightarrow> nat" where
  "missing_in df c = length (filter (\<lambda>r. cell_of df r c = Some Missing) (rows df))"


declare str_nat.simps [simp del]

section \<open>Strings: stripping and normalisation\<close>

lemma is_space_lower_char: "is_space (lower_char c) = is_space c"
  by (auto simp: is_space_def lower_char_def is_upper_def Let_def)

lemma is_upper_lower_char: "\<not> is_upper (lower_char c)"
  by (auto simp: lower_char_def is_upper_def Let_def)

lemma lower_char_idem: "lower_char (lower_char c) = lower_char c"
  using is_upper_lower_char [of c] by (simp add: lower_char_def [of "lower_char c"])

lemma dropWhile_hd: "dropWhile P xs \<noteq> [] \<Longrightarrow> \<not> P (hd (dropWhile P xs))"
  by (metis hd_dropWhile)

lemma dropWhile_same: "xs = [] \<or> \<not> P (hd xs) \<Longrightarrow> dropWhile P xs = xs"
  by (cases xs) auto

lemma dropWhile_last_eq: "dropWhile P xs \<noteq> [] \<Longrightarrow> last (dropWhile P xs) = last xs"
  by (metis last_appendR takeWhile_dropWhile_id)

lemma trimmed_strip: "trimmed (strip s)"
proof -
  define a where "a = dropWhile is_space s"
  define b where "b = dropWhile is_space (rev a)"
  have s: "strip s = rev b" by (simp add: strip_def a_def b_def)
  show ?thesis
  proof (cases "b = []")
    case True
    then show ?thesis by (simp add: trimmed_def s)
  next
    case False
    then have a: "a \<noteq> []" by (auto simp: b_def)
    have "\<not> is_space (hd b)" using False unfolding b_def by (rule dropWhile_hd)
    then have l: "\<not> is_space (last (rev b))" using False by (simp add: last_rev)
    have "\<not> is_space (hd a)" using a unfolding a_def by (rule dropWhile_hd)
    moreover have "last b = last (rev a)" using False unfolding b_def by (rule dropWhile_last_eq)
    ultimately have "\<not> is_space (hd (rev b))" using a False by (simp add: hd_rev last_rev)
    with l show ?thesis by (simp add: trimmed_def s)
  qed
qed

lemma strip_trimmed: "trimmed s \<Longrightarrow> strip s = s"
proof -
  assume t: "trimmed s"
  then have 1: "dropWhile is_space s = s" by (intro dropWhile_same) (auto simp: trimmed_def)
  from t have "rev s = [] \<or> \<not> is_space (hd (rev s))" by (auto simp: trimmed_def hd_rev)
  then have "dropWhile is_space (rev s) = rev s" by (rule dropWhile_same)
  with 1 show ?thesis by (simp add: strip_def)
qed

lemma strip_idem: "strip (strip s) = strip s"
  by (rule strip_trimmed) (rule trimmed_strip)

lemma trimmed_map: "(\<And>c. is_space (f c) = is_space c) \<Longrightarrow> trimmed (map f s) = trimmed s"
  by (cases "s = []") (simp_all add: trimmed_def hd_map last_map)

lemma replace_char_space: "\<not> is_space c \<Longrightarrow> (if c = CHR '' '' then CHR ''_'' else c) = c"
  by (auto simp: is_space_def)

lemma trimmed_normalize_name: "trimmed (normalize_name s)"
proof -
  have t: "trimmed (lower (strip s))"
    unfolding lower_def by (simp add: trimmed_map is_space_lower_char trimmed_strip)
  show ?thesis
  proof (cases "lower (strip s) = []")
    case True
    then show ?thesis by (simp add: normalize_name_def replace_space_def trimmed_def)
  next
    case False
    with t have "\<not> is_space (hd (lower (strip s)))" "\<not> is_space (last (lower (strip s)))"
      by (auto simp: trimmed_def)
    then show ?thesis using False
      by (simp add: normalize_name_def replace_space_def trimmed_def hd_map last_map replace_char_space)
  qed
qed

lemma no_space_normalize_name: "CHR '' '' \<notin> set (normalize_name s)"
  by (auto simp: normalize_name_def replace_space_def)

lemma no_upper_normalize_name: "c \<in> set (normalize_name s) \<Longrightarrow> \<not> is_upper c"
  by (auto simp: normalize_name_def replace_space_def lower_def is_upper_lower_char)
     (simp add: is_upper_def)

lemma lower_same: "(\<And>c. c \<in> set s \<Longrightarrow> \<not> is_upper c) \<Longrightarrow> lower s = s"
  by (simp add: lower_def lower_char_def map_idI)

lemma replace_space_same: "CHR '' '' \<notin> set s \<Longrightarrow> replace_space s = s"
  unfolding replace_space_def by (rule map_idI) auto

lemma normalize_name_fixed:
  "trimmed s \<Longrightarrow> CHR '' '' \<notin> set s \<Longrightarrow> (\<And>c. c \<in> set s \<Longrightarrow> \<not> is_upper c) \<Longrightarrow> normalize_name s = s"
  by (simp add: normalize_name_def strip_trimmed lower_same replace_space_same)

lemma normalize_name_idem: "normalize_name (normalize_name s) = normalize_name s"
  by (rule normalize_name_fixed)
     (simp_all add: trimmed_normalize_name no_space_normalize_name no_upper_normalize_name)

lemma normalize_label_idem: "normalize_label (normalize_label l) = normalize_label l"
  by (simp add: normalize_label_def normalize_name_idem)

lemma normalize_columns_idem: "normalize_columns (normalize_columns df) = normalize_columns df"
  by (simp add: normalize_columns_def normalize_label_idem case_prod_unfold comp_def)

section \<open>Duplicate rows: the mask and the rows kept\<close>

lemma kept_Nil: "kept seen [] = []"
  by (simp add: kept_def)

lemma kept_Cons: "kept seen (r # rs) = (if r \<in> set seen then kept (r # seen) rs else r # kept (r # seen) rs)"
  by (simp add: kept_def)

lemma length_dup_mask: "length (dup_mask seen rs) = length rs"
  by (induction rs arbitrary: seen) auto

lemma set_kept: "set (kept seen rs) = set rs - set seen"
  by (induction rs arbitrary: seen) (auto simp: kept_Nil kept_Cons)

lemma distinct_kept: "distinct (kept seen rs)"
  by (induction rs arbitrary: seen) (auto simp: kept_Nil kept_Cons set_kept)


lemma kept_same: "distinct rs \<Longrightarrow> set rs \<inter> set seen = {} \<Longrightarrow> kept seen rs = rs"
  by (induction rs arbitrary: seen) (auto simp: kept_Nil kept_Cons)




lemma rows_drop_duplicates: "rows (drop_duplicates df) = (if empty_frame df then rows df else kept [] (rows df))"
  by (simp add: drop_duplicates_def duplicated_def kept_def)

lemma columns_drop_duplicates: "columns (drop_duplicates df) = columns df"
  by (simp add: drop_duplicates_def)

lemma drop_duplicates_eq: "drop_duplicates df = df\<lparr>rows := if empty_frame df then rows df else kept [] (rows df)\<rparr>"
  by (simp add: drop_duplicates_def duplicated_def kept_def)



lemma drop_duplicates_idem: "drop_duplicates (drop_duplicates df) = drop_duplicates df"
proof (cases "empty_frame df")
  case True
  then show ?thesis by (simp add: drop_duplicates_def)
next
  case False
  have "kept [] (kept [] (rows df)) = kept [] (rows df)"
    by (rule kept_same) (simp_all add: distinct_kept)
  then show ?thesis
    by (simp add: drop_duplicates_eq empty_frame_def)
qed

section \<open>Cleaning one cell, one column\<close>

lemma clean_cell_simps:
  "clean_cell (Str s) = (if strip s = [] then Missing else Str (strip s))"
  "clean_cell (Num n) = Missing" "clean_cell (Date n) = Missing" "clean_cell Missing = Missing"
  by (simp_all add: clean_cell_def replace_empty_def)

lemma clean_cell_idem: "clean_cell (clean_cell c) = clean_cell c"
  by (cases c) (simp_all add: clean_cell_simps strip_idem)

lemma clean_cell_kind: "isna (clean_cell c) \<or> is_str (clean_cell c)"
  by (cases c) (simp_all add: clean_cell_simps)

lemma positions_single:
  "positions df c = [j] \<Longrightarrow> j < length (columns df) \<and> fst (columns df ! j) = c \<and>
     (\<forall>k < length (columns df). fst (columns df ! k) = c \<longrightarrow> k = j)"
proof -
  assume p: "positions df c = [j]"
  have "set (positions df c) = {k. k < length (columns df) \<and> fst (columns df ! k) = c}"
    by (auto simp: positions_def)
  with p show ?thesis by auto
qed

lemma set_positions: "set (positions df c) = {k. k < length (columns df) \<and> fst (columns df ! k) = c}"
  by (auto simp: positions_def)

lemma positions_Nil: "positions df c = [] \<longleftrightarrow> c \<notin> set (labels df)"
proof
  assume "positions df c = []"
  then have "set (positions df c) = {}" by simp
  then have "\<And>k. k < length (columns df) \<Longrightarrow> fst (columns df ! k) \<noteq> c"
    unfolding set_positions by blast
  then show "c \<notin> set (labels df)"
    unfolding labels_def by (metis in_set_conv_nth length_map nth_map)
next
  assume n: "c \<notin> set (labels df)"
  have "\<And>k. k < length (columns df) \<Longrightarrow> fst (columns df ! k) \<in> set (labels df)"
    unfolding labels_def by simp
  with n have "set (positions df c) = {}" unfolding set_positions by blast
  then show "positions df c = []" by simp
qed

lemma singleton_list: "distinct xs \<Longrightarrow> set xs = {x} \<Longrightarrow> xs = [x]"
proof -
  assume d: "distinct xs" and s: "set xs = {x}"
  then have "length xs = card {x}" by (metis distinct_card)
  then have "length xs = 1" by simp
  then obtain y where "xs = [y]" by (cases xs) auto
  with s show ?thesis by simp
qed

lemma positions_distinct:
  assumes d: "distinct (labels df)" and c: "c \<in> set (labels df)"
  shows "\<exists>j. positions df c = [j]"
proof -
  from c obtain j where j: "j < length (labels df)" "labels df ! j = c"
    by (auto simp: in_set_conv_nth)
  have len: "length (labels df) = length (columns df)" by (simp add: labels_def)
  have nth: "\<And>k. k < length (columns df) \<Longrightarrow> labels df ! k = fst (columns df ! k)"
    by (simp add: labels_def)
  have kj: "k = j" if "k < length (columns df)" "fst (columns df ! k) = c" for k
  proof -
    from that have "labels df ! k = labels df ! j" by (simp add: nth j(2))
    moreover from that have "k < length (labels df)" by (simp add: len)
    ultimately show ?thesis using nth_eq_iff_index_eq [OF d _ j(1)] by blast
  qed
  have "j \<in> set (positions df c)"
    unfolding set_positions using j len nth by force
  moreover have "\<And>k. k \<in> set (positions df c) \<Longrightarrow> k = j"
    unfolding set_positions using kj by blast
  ultimately have "set (positions df c) = {j}" by blast
  moreover have "distinct (positions df c)" by (simp add: positions_def)
  ultimately have "positions df c = [j]" by (rule singleton_list [rotated])
  then show ?thesis by blast
qed

lemma map_zip_map: "map (\<lambda>(r, v). f r v) (zip rs (map g rs)) = map (\<lambda>r. f r (g r)) rs"
  by (induction rs) auto

lemma setitem_clean:
  "setitem df j (map (replace_empty \<circ> str_strip) (map (\<lambda>r. r ! j) (rows df))) = clean_at j df"
proof -
  have "map (\<lambda>(r, v). r[j := v]) (zip (rows df) (map (\<lambda>r. clean_cell (r ! j)) (rows df)))
        = map (\<lambda>r. r[j := clean_cell (r ! j)]) (rows df)"
    by (rule map_zip_map)
  then show ?thesis by (simp add: setitem_def clean_at_def clean_cell_def comp_def)
qed

lemma clean_column_single:
  "positions df c = [j] \<Longrightarrow>
   clean_column df c = (if str_ok (column df j) then Inr (clean_at j df) else Inl AttributeError)"
  using setitem_clean [of df j]
  by (simp add: clean_column_def getitem_def str_accessor_def str_ok_def column_def)

lemma clean_column_Nil: "positions df c = [] \<Longrightarrow> clean_column df c = Inl KeyError"
  by (simp add: clean_column_def getitem_def)

lemma clean_column_many: "positions df c = j # k # js \<Longrightarrow> clean_column df c = Inl AttributeError"
  by (simp add: clean_column_def getitem_def str_accessor_def)

lemma clean_column_Inr_iff:
  "clean_column df c = Inr df' \<longleftrightarrow>
   (\<exists>j. positions df c = [j] \<and> str_ok (column df j) \<and> df' = clean_at j df)"
proof (cases "positions df c")
  case Nil
  then show ?thesis by (simp add: clean_column_Nil)
next
  case (Cons j js)
  show ?thesis
  proof (cases js)
    case Nil
    with Cons show ?thesis by (auto simp: clean_column_single)
  next
    case (Cons k ks)
    with \<open>positions df c = j # js\<close> show ?thesis by (simp add: clean_column_many)
  qed
qed

lemma columns_clean_at: "columns (clean_at j df) = columns df"
  by (simp add: clean_at_def)

lemma positions_clean_at: "positions (clean_at j df) c = positions df c"
  by (simp add: positions_def columns_clean_at)

lemma wf_clean_at: "wf_table (clean_at j df) = wf_table df"
  by (simp add: wf_table_def clean_at_def list_all_iff)

lemma column_clean_at_other: "k \<noteq> j \<Longrightarrow> column (clean_at j df) k = column df k"
  by (simp add: column_def clean_at_def)

lemma column_clean_at_same:
  "wf_table df \<Longrightarrow> j < length (columns df) \<Longrightarrow> column (clean_at j df) j = map clean_cell (column df j)"
  by (simp add: column_def clean_at_def wf_table_def list_all_iff)

section \<open>The loop of the Cleaner\<close>

lemma str_ok_strings: "\<forall>v\<in>set vs. isna v \<or> is_str v \<Longrightarrow> str_ok vs"
proof -
  assume a: "\<forall>v\<in>set vs. isna v \<or> is_str v"
  then have all: "list_all (\<lambda>v. isna v \<or> is_str v) vs" by (simp add: list_all_iff)
  show ?thesis
  proof (cases "filter (\<lambda>v. \<not> isna v) vs")
    case Nil
    then show ?thesis by (simp add: str_ok_def infer_dtype_def)
  next
    case (Cons v ws)
    then have "v \<in> set (filter (\<lambda>v. \<not> isna v) vs)" by simp
    then have "v \<in> set vs" "\<not> isna v" by auto
    with a have "is_str v" by blast
    then obtain s where "v = Str s" by (cases v) auto
    with Cons all show ?thesis by (simp add: str_ok_def infer_dtype_def)
  qed
qed

lemma str_ok_map_clean_cell: "str_ok (map clean_cell vs)"
  by (rule str_ok_strings) (auto simp: clean_cell_kind)

lemma clean_by_Nil: "length r = length cols \<Longrightarrow> clean_by [] cols r = r"
proof -
  assume l: "length r = length cols"
  have "clean_by [] cols r = map snd (zip cols r)"
    by (simp add: clean_by_def case_prod_unfold)
  with l show ?thesis by simp
qed

lemma length_clean_by: "length (clean_by cs cols r) = min (length cols) (length r)"
  by (simp add: clean_by_def)

lemma nth_clean_by:
  "i < length cols \<Longrightarrow> i < length r \<Longrightarrow>
   clean_by cs cols r ! i = (if fst (cols ! i) \<in> set cs then clean_cell (r ! i) else r ! i)"
  by (simp add: clean_by_def case_prod_unfold)

lemma clean_by_step:
  assumes len: "length r = length cols"
    and j: "j < length cols" "fst (cols ! j) = c"
    and uniq: "\<forall>k<length cols. fst (cols ! k) = c \<longrightarrow> k = j"
  shows "clean_by cs cols (r[j := clean_cell (r ! j)]) = clean_by (c # cs) cols r"
proof (rule nth_equalityI)
  show "length (clean_by cs cols (r[j := clean_cell (r ! j)])) = length (clean_by (c # cs) cols r)"
    by (simp add: length_clean_by)
next
  fix i assume "i < length (clean_by cs cols (r[j := clean_cell (r ! j)]))"
  then have i: "i < length cols" "i < length r" using len by (simp_all add: length_clean_by)
  show "clean_by cs cols (r[j := clean_cell (r ! j)]) ! i = clean_by (c # cs) cols r ! i"
  proof (cases "i = j")
    case True
    with i j show ?thesis by (simp add: nth_clean_by clean_cell_idem)
  next
    case False
    with uniq i have "fst (cols ! i) \<noteq> c" by blast
    with False i show ?thesis by (simp add: nth_clean_by)
  qed
qed

lemma clean_loop_Inr:
  "wf_table df \<Longrightarrow> clean_loop cs df = Inr df' \<Longrightarrow>
   df' = df\<lparr>rows := map (clean_by cs (columns df)) (rows df)\<rparr>"
proof (induction cs arbitrary: df)
  case Nil
  then have "map (clean_by [] (columns df)) (rows df) = rows df"
    by (intro map_idI clean_by_Nil) (simp add: wf_table_def list_all_iff)
  with Nil show ?case by simp
next
  case (Cons c cs)
  from Cons.prems(2) obtain df1 where 1: "clean_column df c = Inr df1" and 2: "clean_loop cs df1 = Inr df'"
    by (auto split: sum.splits)
  from 1 obtain j where j: "positions df c = [j]" "df1 = clean_at j df"
    by (auto simp: clean_column_Inr_iff)
  have wf1: "wf_table df1" using Cons.prems(1) j(2) by (simp add: wf_clean_at)
  from Cons.IH [OF wf1 2] have df': "df' = df1\<lparr>rows := map (clean_by cs (columns df1)) (rows df1)\<rparr>" .
  note p = positions_single [OF j(1)]
  have "clean_by cs (columns df) (r[j := clean_cell (r ! j)]) = clean_by (c # cs) (columns df) r"
    if "r \<in> set (rows df)" for r
  proof (rule clean_by_step)
    show "length r = length (columns df)" using that Cons.prems(1) by (simp add: wf_table_def list_all_iff)
  qed (use p in auto)
  then have "map (clean_by cs (columns df)) (map (\<lambda>r. r[j := clean_cell (r ! j)]) (rows df))
     = map (clean_by (c # cs) (columns df)) (rows df)" by simp
  then show ?case unfolding df' j(2) by (simp add: clean_at_def)
qed

lemma clean_loop_Cons_Inr_iff:
  "clean_loop (c # cs) df = Inr df' \<longleftrightarrow>
   (\<exists>j. positions df c = [j] \<and> str_ok (column df j) \<and> clean_loop cs (clean_at j df) = Inr df')"
proof -
  have "clean_loop (c # cs) df = Inr df' \<longleftrightarrow>
        (\<exists>df1. clean_column df c = Inr df1 \<and> clean_loop cs df1 = Inr df')"
    by (auto split: sum.splits)
  then show ?thesis by (auto simp: clean_column_Inr_iff)
qed

lemma clean_loop_positions:
  "clean_loop cs df = Inr df' \<Longrightarrow> c \<in> set cs \<Longrightarrow> \<exists>j. positions df c = [j]"
proof (induction cs arbitrary: df)
  case Nil
  then show ?case by simp
next
  case (Cons a cs)
  from Cons.prems(1) obtain j where j: "positions df a = [j]" "clean_loop cs (clean_at j df) = Inr df'"
    unfolding clean_loop_Cons_Inr_iff by blast
  show ?case
  proof (cases "c = a")
    case True
    with j show ?thesis by blast
  next
    case False
    with Cons.prems(2) have "c \<in> set cs" by simp
    from Cons.IH [OF j(2) this] show ?thesis by (simp add: positions_clean_at)
  qed
qed

lemma clean_loop_succeeds_iff:
  "wf_table df \<Longrightarrow>
   (\<exists>df'. clean_loop cs df = Inr df') \<longleftrightarrow>
   (\<forall>c\<in>set cs. \<exists>j. positions df c = [j] \<and> str_ok (column df j))"
proof (induction cs arbitrary: df)
  case Nil
  then show ?case by simp
next
  case (Cons a cs)
  show ?case
  proof
    assume "\<exists>df'. clean_loop (a # cs) df = Inr df'"
    then obtain df' j where j: "positions df a = [j]" "str_ok (column df j)"
      and l: "clean_loop cs (clean_at j df) = Inr df'"
      unfolding clean_loop_Cons_Inr_iff by blast
    have wf1: "wf_table (clean_at j df)" using Cons.prems by (simp add: wf_clean_at)
    from l Cons.IH [OF wf1]
    have ih: "\<forall>c\<in>set cs. \<exists>k. positions df c = [k] \<and> str_ok (column (clean_at j df) k)"
      by (auto simp: positions_clean_at)
    have "\<exists>k. positions df c = [k] \<and> str_ok (column df k)" if "c \<in> set cs" for c
    proof -
      from ih that obtain k where k: "positions df c = [k]" "str_ok (column (clean_at j df) k)" by blast
      show ?thesis
      proof (cases "k = j")
        case True
        with k j show ?thesis by simp
      next
        case False
        with k show ?thesis by (simp add: column_clean_at_other)
      qed
    qed
    with j show "\<forall>c\<in>set (a # cs). \<exists>j. positions df c = [j] \<and> str_ok (column df j)" by auto
  next
    assume r: "\<forall>c\<in>set (a # cs). \<exists>j. positions df c = [j] \<and> str_ok (column df j)"
    then obtain j where j: "positions df a = [j]" "str_ok (column df j)" by auto
    have wf1: "wf_table (clean_at j df)" using Cons.prems by (simp add: wf_clean_at)
    have jl: "j < length (columns df)" using positions_single [OF j(1)] by simp
    have "\<exists>k. positions (clean_at j df) c = [k] \<and> str_ok (column (clean_at j df) k)"
      if "c \<in> set cs" for c
    proof -
      from r that obtain k where k: "positions df c = [k]" "str_ok (column df k)" by auto
      show ?thesis
      proof (cases "k = j")
        case True
        with k show ?thesis
          by (simp add: positions_clean_at column_clean_at_same [OF Cons.prems jl] str_ok_map_clean_cell)
      next
        case False
        with k show ?thesis by (simp add: positions_clean_at column_clean_at_other)
      qed
    qed
    with Cons.IH [OF wf1] obtain df' where "clean_loop cs (clean_at j df) = Inr df'" by blast
    with j show "\<exists>df'. clean_loop (a # cs) df = Inr df'"
      unfolding clean_loop_Cons_Inr_iff by blast
  qed
qed

lemma clean_column_error:
  "clean_column df c = Inl e \<Longrightarrow> c \<in> set (labels df) \<Longrightarrow> e = AttributeError"
proof -
  assume e: "clean_column df c = Inl e" and c: "c \<in> set (labels df)"
  then have n: "positions df c \<noteq> []" by (simp add: positions_Nil)
  then obtain j js where p: "positions df c = j # js" by (cases "positions df c") auto
  show ?thesis
  proof (cases js)
    case Nil
    with p e show ?thesis by (simp add: clean_column_single split: if_splits)
  next
    case (Cons k ks)
    with p e show ?thesis by (simp add: clean_column_many)
  qed
qed

lemma labels_clean_at: "labels (clean_at j df) = labels df"
  by (simp add: labels_def columns_clean_at)

lemma clean_loop_error:
  "clean_loop cs df = Inl e \<Longrightarrow> set cs \<subseteq> set (labels df) \<Longrightarrow> e = AttributeError"
proof (induction cs arbitrary: df)
  case Nil
  then show ?case by simp
next
  case (Cons a cs)
  show ?case
  proof (cases "clean_column df a")
    case (Inl e')
    with Cons.prems show ?thesis by (auto dest: clean_column_error)
  next
    case (Inr df1)
    then obtain j where "df1 = clean_at j df" by (auto simp: clean_column_Inr_iff)
    with Inr Cons.prems Cons.IH [of df1] show ?thesis by (simp add: labels_clean_at)
  qed
qed

section \<open>What the Cleaner returns\<close>

lemma select_object_subset: "set (select_object df) \<subseteq> set (labels df)"
  by (auto simp: select_object_def labels_def)

lemma select_object_mem:
  assumes u: "\<forall>c\<in>set (select_object df). \<exists>j. positions df c = [j]"
    and m: "(l, d) \<in> set (columns df)"
  shows "l \<in> set (select_object df) \<longleftrightarrow> d = Object"
proof
  assume "d = Object"
  with m show "l \<in> set (select_object df)" by (force simp: select_object_def)
next
  assume l: "l \<in> set (select_object df)"
  then obtain d' where d': "(l, d') \<in> set (columns df)" "d' = Object"
    by (auto simp: select_object_def)
  from u l obtain j where j: "positions df l = [j]" by blast
  note p = positions_single [OF j]
  from m obtain k where k: "k < length (columns df)" "columns df ! k = (l, d)"
    by (auto simp: in_set_conv_nth)
  from d' obtain k' where k': "k' < length (columns df)" "columns df ! k' = (l, d')"
    by (auto simp: in_set_conv_nth)
  from p k have "k = j" by simp
  moreover from p k' have "k' = j" by simp
  ultimately show "d = Object" using k k' d' by simp
qed

lemma clean_by_select:
  assumes u: "\<forall>c\<in>set (select_object df). \<exists>j. positions df c = [j]"
  shows "clean_by (select_object df) (columns df) r = clean_row (columns df) r"
proof -
  have "(if l \<in> set (select_object df) then clean_cell x else x) = (if d = Object then clean_cell x else x)"
    if "((l, d), x) \<in> set (zip (columns df) r)" for l d x
  proof -
    from that have "(l, d) \<in> set (columns df)" by (rule set_zip_leftD)
    from select_object_mem [OF u this] show ?thesis by simp
  qed
  then show ?thesis unfolding clean_by_def clean_row_def
    by (intro map_cong) auto
qed

lemma clean_row_map_label: "clean_row (map (\<lambda>(l, d). (f l, d)) cols) r = clean_row cols r"
proof -
  have "zip (map (\<lambda>(l, d). (f l, d)) cols) r = map (\<lambda>((l, d), x). ((f l, d), x)) (zip cols r)"
    by (simp add: zip_map1 case_prod_unfold)
  then show ?thesis by (simp add: clean_row_def case_prod_unfold comp_def)
qed

lemma clean_row_normalize: "clean_row (columns (normalize_columns df)) r = clean_row (columns df) r"
  by (simp add: normalize_columns_def clean_row_map_label)

lemma rows_normalize: "rows (normalize_columns df) = rows df"
  by (simp add: normalize_columns_def)

lemma length_columns_normalize: "length (columns (normalize_columns df)) = length (columns df)"
  by (simp add: normalize_columns_def)

lemma wf_normalize: "wf_table (normalize_columns df) = wf_table df"
  by (simp add: wf_table_def rows_normalize length_columns_normalize)

lemma column_normalize: "column (normalize_columns df) j = column df j"
  by (simp add: column_def rows_normalize)

lemma clean_data_Inr_iff_loop:
  "clean_data df = Inr df' \<longleftrightarrow>
   (\<exists>df1. clean_loop (select_object (normalize_columns df)) (normalize_columns df) = Inr df1 \<and>
          df' = drop_duplicates df1)"
  by (auto simp: clean_data_def Let_def split: sum.splits)

lemma clean_data_Inr:
  assumes wf: "wf_table df" and c: "clean_data df = Inr df'"
  shows "df' = drop_duplicates (strings_cleaned df)"
proof -
  let ?N = "normalize_columns df"
  from c obtain df1 where l: "clean_loop (select_object ?N) ?N = Inr df1" and d: "df' = drop_duplicates df1"
    unfolding clean_data_Inr_iff_loop by blast
  have wfN: "wf_table ?N" using wf by (simp add: wf_normalize)
  have u: "\<forall>c\<in>set (select_object ?N). \<exists>j. positions ?N c = [j]"
    using clean_loop_positions [OF l] by blast
  have "df1 = ?N\<lparr>rows := map (clean_by (select_object ?N) (columns ?N)) (rows ?N)\<rparr>"
    using wfN l by (rule clean_loop_Inr)
  also have "map (clean_by (select_object ?N) (columns ?N)) (rows ?N) = map (clean_row (columns df)) (rows df)"
    by (simp add: clean_by_select [OF u] clean_row_normalize rows_normalize)
  finally show ?thesis using d by (simp add: strings_cleaned_def)
qed

lemma clean_data_succeeds_iff:
  assumes wf: "wf_table df"
  shows "(\<exists>df'. clean_data df = Inr df') \<longleftrightarrow>
     (\<forall>c\<in>set (select_object (normalize_columns df)).
        \<exists>j. positions (normalize_columns df) c = [j] \<and> str_ok (column df j))"
proof -
  have wfN: "wf_table (normalize_columns df)" using wf by (simp add: wf_normalize)
  have "(\<exists>df'. clean_data df = Inr df') \<longleftrightarrow>
        (\<exists>df1. clean_loop (select_object (normalize_columns df)) (normalize_columns df) = Inr df1)"
    unfolding clean_data_Inr_iff_loop by blast
  then show ?thesis
    unfolding clean_loop_succeeds_iff [OF wfN] by (simp add: column_normalize)
qed

lemma clean_data_error: "clean_data df = Inl e \<Longrightarrow> e = AttributeError"
proof -
  assume "clean_data df = Inl e"
  then have "clean_loop (select_object (normalize_columns df)) (normalize_columns df) = Inl e"
    by (auto simp: clean_data_def Let_def split: sum.splits)
  then show ?thesis by (rule clean_loop_error) (rule select_object_subset)
qed

lemma is_normalized_normalize_name: "is_normalized (normalize_name s)"
  by (simp add: is_normalized_def trimmed_normalize_name no_space_normalize_name
      no_upper_normalize_name list_all_iff)

lemma columns_clean_loop: "clean_loop cs df = Inr df' \<Longrightarrow> columns df' = columns df"
proof (induction cs arbitrary: df)
  case Nil
  then show ?case by simp
next
  case (Cons a cs)
  from Cons.prems obtain j where "clean_loop cs (clean_at j df) = Inr df'"
    unfolding clean_loop_Cons_Inr_iff by blast
  from Cons.IH [OF this] show ?case by (simp add: columns_clean_at)
qed

lemma columns_clean_data: "clean_data df = Inr df' \<Longrightarrow> columns df' = columns (normalize_columns df)"
  unfolding clean_data_Inr_iff_loop
  by (auto simp: columns_drop_duplicates columns_clean_loop)

lemma labels_normalize: "labels (normalize_columns df) = map normalize_label (labels df)"
  by (simp add: labels_def normalize_columns_def case_prod_unfold comp_def)

lemma dtypes_normalize: "map snd (columns (normalize_columns df)) = map snd (columns df)"
  by (simp add: normalize_columns_def case_prod_unfold comp_def)

lemma rows_strings_cleaned: "rows (strings_cleaned df) = map (clean_row (columns df)) (rows df)"
  by (simp add: strings_cleaned_def)

lemma columns_strings_cleaned: "columns (strings_cleaned df) = columns (normalize_columns df)"
  by (simp add: strings_cleaned_def)


lemma length_clean_row: "length (clean_row cols r) = min (length cols) (length r)"
  by (simp add: clean_row_def)

lemma nth_clean_row:
  "i < length cols \<Longrightarrow> i < length r \<Longrightarrow>
   clean_row cols r ! i = (if snd (cols ! i) = Object then clean_cell (r ! i) else r ! i)"
  by (simp add: clean_row_def case_prod_unfold)

lemma clean_row_idem:
  assumes len: "length r = length cols" and dts: "map snd cols' = map snd cols"
  shows "clean_row cols' (clean_row cols r) = clean_row cols r"
proof (rule nth_equalityI)
  from dts have l: "length cols' = length cols" by (rule map_eq_imp_length_eq)
  with len show "length (clean_row cols' (clean_row cols r)) = length (clean_row cols r)"
    by (simp add: length_clean_row)
  fix i assume "i < length (clean_row cols' (clean_row cols r))"
  then have i: "i < length cols" "i < length r" "i < length cols'"
    using len l by (simp_all add: length_clean_row)
  from dts i have "map snd cols' ! i = map snd cols ! i" by simp
  with i have s: "snd (cols' ! i) = snd (cols ! i)" by simp
  from i s show "clean_row cols' (clean_row cols r) ! i = clean_row cols r ! i"
    by (simp add: nth_clean_row length_clean_row clean_cell_idem)
qed

lemma wf_strings_cleaned: "wf_table df \<Longrightarrow> wf_table (strings_cleaned df)"
  by (simp add: wf_table_def list_all_iff rows_strings_cleaned columns_strings_cleaned
      length_clean_row length_columns_normalize)

lemma set_rows_drop_duplicates: "set (rows (drop_duplicates df)) \<subseteq> set (rows df)"
  by (auto simp: rows_drop_duplicates set_kept)

lemma wf_drop_duplicates: "wf_table df \<Longrightarrow> wf_table (drop_duplicates df)"
  using set_rows_drop_duplicates [of df]
  by (auto simp: wf_table_def list_all_iff columns_drop_duplicates)

lemma normalize_columns_fixed:
  "columns df' = columns (normalize_columns df) \<Longrightarrow> normalize_columns df' = df'"
proof -
  assume c: "columns df' = columns (normalize_columns df)"
  have "columns (normalize_columns df') = columns (normalize_columns (normalize_columns df))"
    by (simp add: normalize_columns_def c)
  then have "columns (normalize_columns df') = columns df'"
    by (simp add: normalize_columns_idem c)
  moreover have "normalize_columns df' = df'\<lparr>columns := columns (normalize_columns df')\<rparr>"
    by (simp add: normalize_columns_def)
  ultimately show ?thesis by simp
qed

lemma positions_columns: "columns a = columns b \<Longrightarrow> positions a c = positions b c"
  by (simp add: positions_def)

lemma select_object_columns: "columns a = columns b \<Longrightarrow> select_object a = select_object b"
  by (simp add: select_object_def)



lemma strings_cleaned_fixed:
  assumes wf: "wf_table df"
  shows "strings_cleaned (drop_duplicates (strings_cleaned df)) = drop_duplicates (strings_cleaned df)"
proof -
  let ?D = "drop_duplicates (strings_cleaned df)"
  have cols: "columns ?D = columns (normalize_columns df)"
    by (simp add: columns_drop_duplicates columns_strings_cleaned)
  have n: "normalize_columns ?D = ?D" using cols by (rule normalize_columns_fixed)
  have dts: "map snd (columns ?D) = map snd (columns df)"
    by (simp add: cols dtypes_normalize)
  have "clean_row (columns ?D) r' = r'" if "r' \<in> set (rows ?D)" for r'
  proof -
    from that set_rows_drop_duplicates [of "strings_cleaned df"]
    have "r' \<in> set (rows (strings_cleaned df))" by blast
    then obtain r where r: "r \<in> set (rows df)" "r' = clean_row (columns df) r"
      by (auto simp: rows_strings_cleaned)
    from r(1) wf have "length r = length (columns df)" by (simp add: wf_table_def list_all_iff)
    from clean_row_idem [OF this dts] r(2) show ?thesis by simp
  qed
  then have "map (clean_row (columns ?D)) (rows ?D) = rows ?D" by (simp add: map_idI)
  then show ?thesis unfolding strings_cleaned_def [of ?D] n by simp
qed

lemma column_cleaned_ok:
  assumes wf: "wf_table df" and j: "j < length (columns df)" "snd (columns df ! j) = Object"
  shows "str_ok (column (drop_duplicates (strings_cleaned df)) j)"
proof (rule str_ok_strings, rule ballI)
  fix v assume "v \<in> set (column (drop_duplicates (strings_cleaned df)) j)"
  then obtain r' where r': "r' \<in> set (rows (drop_duplicates (strings_cleaned df)))" "v = r' ! j"
    by (auto simp: column_def)
  from r'(1) set_rows_drop_duplicates [of "strings_cleaned df"]
  have "r' \<in> set (rows (strings_cleaned df))" by blast
  then obtain r where r: "r \<in> set (rows df)" "r' = clean_row (columns df) r"
    by (auto simp: rows_strings_cleaned)
  from r(1) wf have "length r = length (columns df)" by (simp add: wf_table_def list_all_iff)
  with j r(2) r'(2) have "v = clean_cell (r ! j)" by (simp add: nth_clean_row)
  then show "isna v \<or> is_str v" by (simp add: clean_cell_kind)
qed

lemma clean_data_again:
  assumes wf: "wf_table df" and c: "clean_data df = Inr df'"
  shows "clean_data df' = Inr df'"
proof -
  let ?N = "normalize_columns df"
  have df': "df' = drop_duplicates (strings_cleaned df)" using wf c by (rule clean_data_Inr)
  have cols: "columns df' = columns ?N"
    by (simp add: df' columns_drop_duplicates columns_strings_cleaned)
  have n: "normalize_columns df' = df'" using cols by (rule normalize_columns_fixed)
  have wf': "wf_table df'" unfolding df' using wf by (intro wf_drop_duplicates wf_strings_cleaned)
  from c have "\<exists>d. clean_data df = Inr d" by blast
  then have ok: "\<forall>c\<in>set (select_object ?N). \<exists>j. positions ?N c = [j] \<and> str_ok (column df j)"
    unfolding clean_data_succeeds_iff [OF wf] .
  then have u: "\<forall>c\<in>set (select_object ?N). \<exists>j. positions ?N c = [j]" by blast
  have "\<exists>j. positions df' a = [j] \<and> str_ok (column df' j)" if a: "a \<in> set (select_object df')" for a
  proof -
    from a have a': "a \<in> set (select_object ?N)" by (simp add: select_object_columns [OF cols])
    with u obtain j where j: "positions ?N a = [j]" by blast
    note p = positions_single [OF j]
    from p have jl: "j < length (columns df)" by (simp add: length_columns_normalize)
    from p have "(a, snd (columns ?N ! j)) \<in> set (columns ?N)"
      by (metis nth_mem prod.collapse)
    from select_object_mem [OF u this] a' have "snd (columns ?N ! j) = Object" by simp
    moreover have "snd (columns ?N ! j) = snd (columns df ! j)"
      using jl by (simp add: normalize_columns_def case_prod_unfold)
    ultimately have "snd (columns df ! j) = Object" by simp
    from column_cleaned_ok [OF wf jl this] have "str_ok (column df' j)" by (simp add: df')
    moreover have "positions df' a = [j]" using j by (simp add: positions_columns [OF cols])
    ultimately show ?thesis by blast
  qed
  then have "\<exists>d. clean_data df' = Inr d"
    unfolding clean_data_succeeds_iff [OF wf'] n by blast
  then obtain d where d: "clean_data df' = Inr d" by blast
  from clean_data_Inr [OF wf' d] have "d = drop_duplicates (strings_cleaned df')" .
  also have "strings_cleaned df' = df'" unfolding df' using wf by (rule strings_cleaned_fixed)
  also have "drop_duplicates df' = df'" unfolding df' by (rule drop_duplicates_idem)
  finally show ?thesis using d by simp
qed

section \<open>The loop of the Validator\<close>

lemma isna_iff: "isna v \<longleftrightarrow> v = Missing"
  by (cases v) simp_all

lemma missing_count_single:
  "positions df c = [j] \<Longrightarrow> missing_count df c = Inr (length (filter isna (column df j)))"
  by (simp add: missing_count_def getitem_def column_def)

lemma missing_count_many: "positions df c = j # k # js \<Longrightarrow> missing_count df c = Inl ValueError"
  by (simp add: missing_count_def getitem_def)

lemma cell_of_nth:
  assumes wf: "wf_table df" and d: "distinct (labels df)" and p: "positions df c = [j]"
    and r: "r \<in> set (rows df)"
  shows "cell_of df r c = Some (r ! j)"
proof -
  note s = positions_single [OF p]
  from r wf have len: "length (labels df) = length r"
    by (simp add: wf_table_def list_all_iff labels_def)
  from s len have j: "j < length r" by (simp add: labels_def)
  from s have "labels df ! j = c" by (simp add: labels_def)
  with map_of_zip_nth [OF len d j] show ?thesis by (simp add: cell_of_def)
qed

lemma missing_count_eq:
  assumes wf: "wf_table df" and d: "distinct (labels df)" and c: "c \<in> set (labels df)"
  shows "missing_count df c = Inr (missing_in df c)"
proof -
  from positions_distinct [OF d c] obtain j where p: "positions df c = [j]" by blast
  have "filter (\<lambda>r. isna (r ! j)) (rows df) = filter (\<lambda>r. cell_of df r c = Some Missing) (rows df)"
    by (rule filter_cong) (simp_all add: cell_of_nth [OF wf d p] isna_iff)
  then have "length (filter isna (column df j)) = missing_in df c"
    by (simp add: column_def filter_map comp_def missing_in_def)
  with p show ?thesis by (simp add: missing_count_single)
qed

lemma two_filters:
  "(\<And>x. \<not> (P x \<and> Q x)) \<Longrightarrow> length (filter P xs) + length (filter Q xs) \<le> length xs"
  by (induction xs) auto


lemma missing_count_error:
  "missing_count df c = Inl e \<Longrightarrow> c \<in> set (labels df) \<Longrightarrow> e = ValueError"
proof -
  assume e: "missing_count df c = Inl e" and c: "c \<in> set (labels df)"
  then have "positions df c \<noteq> []" by (simp add: positions_Nil)
  then obtain j js where p: "positions df c = j # js" by (cases "positions df c") auto
  show ?thesis
  proof (cases js)
    case Nil
    with p e show ?thesis by (simp add: missing_count_single)
  next
    case (Cons k ks)
    with p e show ?thesis by (simp add: missing_count_many)
  qed
qed

lemma required_loop_error: "required_loop df cols issues = Inl e \<Longrightarrow> e = ValueError"
proof (induction cols arbitrary: issues)
  case Nil
  then show ?case by simp
next
  case (Cons col cols)
  show ?case
  proof (cases "LStr col \<in> set (labels df)")
    case False
    with Cons show ?thesis by simp
  next
    case True
    show ?thesis
    proof (cases "missing_count df (LStr col)")
      case (Inl e')
      with True Cons.prems have "e' = e" by simp
      with Inl True show ?thesis by (auto dest: missing_count_error)
    next
      case (Inr n)
      with True Cons show ?thesis by (simp split: if_splits)
    qed
  qed
qed

lemma required_loop_distinct:
  assumes d: "distinct (labels df)"
  shows "\<exists>out. required_loop df cols issues = Inr out"
proof (induction cols arbitrary: issues)
  case Nil
  show ?case by simp
next
  case (Cons col cols)
  show ?case
  proof (cases "LStr col \<in> set (labels df)")
    case False
    then show ?thesis using Cons.IH by simp
  next
    case True
    from positions_distinct [OF d True] obtain j where "positions df (LStr col) = [j]" by blast
    then have "missing_count df (LStr col) = Inr (length (filter isna (column df j)))"
      by (rule missing_count_single)
    with True show ?thesis using Cons.IH by simp
  qed
qed

section \<open>The Normalizer\<close>

text \<open>
  C8. The Normalizer is idempotent: normalizing the columns of an already normalized
  table changes nothing, and normalizing an already normalized column label yields
  the same label.
\<close>

theorem normalize_columns_idempotent:
  "normalize_columns (normalize_columns df) = normalize_columns df \<and>
   normalize_label (normalize_label l) = normalize_label l \<and>
   normalize_name (normalize_name s) = normalize_name s"
  by (simp add: normalize_columns_idem normalize_label_idem normalize_name_idem)

text \<open>
  C3, as amended. For every input table the Normalizer replaces each column label by
  its normalized form, position by position: no column is reordered or dropped, dtypes
  and rows are those of the input. The labels of the output are pairwise distinct
  exactly when the labels of the input are pairwise distinct and no two of them have
  the same normalized form. The Cleaner adds no change of its own: a table that it
  returns has the labels of the Normalizer's output.
\<close>

theorem normalize_columns_labels:
  "labels (normalize_columns df) = map normalize_label (labels df) \<and>
   map snd (columns (normalize_columns df)) = map snd (columns df) \<and>
   rows (normalize_columns df) = rows df \<and>
   (distinct (labels (normalize_columns df)) \<longleftrightarrow>
      distinct (labels df) \<and> inj_on normalize_label (set (labels df))) \<and>
   (clean_data df = Inr df' \<longrightarrow> labels df' = labels (normalize_columns df))"
proof -
  have "labels df' = labels (normalize_columns df)" if "clean_data df = Inr df'"
    using columns_clean_data [OF that] by (simp add: labels_def)
  then show ?thesis
    by (simp add: labels_normalize dtypes_normalize rows_normalize distinct_map)
qed

theorem normalize_columns_labels_witness:
  "clean_data \<lparr>columns = [(LStr ''First Name'', Object), (LStr ''AGE '', Int64)],
               rows = [[Str ''ann '', Num 30]]\<rparr>
     = Inr \<lparr>columns = [(LStr ''first_name'', Object), (LStr ''age'', Int64)],
            rows = [[Str ''ann'', Num 30]]\<rparr> \<and>
   labels \<lparr>columns = [(LStr ''first_name'', Object), (LStr ''age'', Int64)],
            rows = [[Str ''ann'', Num 30]]\<rparr>
     = labels (normalize_columns \<lparr>columns = [(LStr ''First Name'', Object), (LStr ''AGE '', Int64)],
               rows = [[Str ''ann '', Num 30]]\<rparr>) \<and>
   distinct (labels (normalize_columns \<lparr>columns = [(LStr ''First Name'', Object), (LStr ''AGE '', Int64)],
               rows = [[Str ''ann '', Num 30]]\<rparr>))"
proof -
  let ?T = "\<lparr>columns = [(LStr ''First Name'', Object), (LStr ''AGE '', Int64)],
               rows = [[Str ''ann '', Num 30]]\<rparr>"
  let ?T1 = "\<lparr>columns = [(LStr ''first_name'', Object), (LStr ''age'', Int64)],
            rows = [[Str ''ann'', Num 30]]\<rparr>"
  have e: "clean_data ?T = Inr ?T1" by code_simp
  have d: "distinct (labels (normalize_columns ?T))" by code_simp
  from normalize_columns_labels [of ?T ?T1] e have "labels ?T1 = labels (normalize_columns ?T)"
    by blast
  with e d show ?thesis by blast
qed

text \<open>
  C3 as stated fails: the distinct labels \<^verbatim>\<open>"A"\<close> and \<^verbatim>\<open>"a"\<close> are both normalized
  to \<^verbatim>\<open>"a"\<close>.
\<close>

theorem normalize_columns_collision:
  "distinct (labels \<lparr>columns = [(LStr ''A'', Object), (LStr ''a'', Object)], rows = []\<rparr>) \<and>
   \<not> distinct (labels (normalize_columns
       \<lparr>columns = [(LStr ''A'', Object), (LStr ''a'', Object)], rows = []\<rparr>))"
  by code_simp

section \<open>The Cleaner\<close>

text \<open>
  C10. The Cleaner normalizes the column labels itself, as its first step: cleaning a
  table and cleaning its normalized form give the same result, and the labels of a
  cleaned table are the normalized labels of the input, each of them a normalized
  name, whether or not the input had been normalized.
\<close>

theorem clean_data_normalizes_first:
  "clean_data (normalize_columns df) = clean_data df \<and>
   (clean_data df = Inr df' \<longrightarrow>
      labels df' = map normalize_label (labels df) \<and>
      list_all (\<lambda>l. \<exists>s. l = LStr s \<and> is_normalized s) (labels df'))"
proof -
  have 1: "clean_data (normalize_columns df) = clean_data df"
    by (simp add: clean_data_def normalize_columns_idem)
  have 2: "labels df' = map normalize_label (labels df)" if "clean_data df = Inr df'"
    using columns_clean_data [OF that] labels_normalize [of df] by (simp add: labels_def)
  have 3: "list_all (\<lambda>l. \<exists>s. l = LStr s \<and> is_normalized s) (map normalize_label ls)" for ls
    by (simp add: list_all_iff normalize_label_def is_normalized_normalize_name)
  from 1 2 3 show ?thesis by simp
qed

theorem clean_data_normalizes_first_witness:
  "clean_data \<lparr>columns = [(LStr ''  Order Date '', Object), (LNum 7, Int64)],
               rows = [[Str '' x '', Num 1], [Str ''x'', Num 1]]\<rparr>
     = Inr \<lparr>columns = [(LStr ''order_date'', Object), (LStr ''7'', Int64)], rows = [[Str ''x'', Num 1]]\<rparr> \<and>
   labels \<lparr>columns = [(LStr ''order_date'', Object), (LStr ''7'', Int64)], rows = [[Str ''x'', Num 1]]\<rparr>
     = map normalize_label (labels \<lparr>columns = [(LStr ''  Order Date '', Object), (LNum 7, Int64)],
               rows = [[Str '' x '', Num 1], [Str ''x'', Num 1]]\<rparr>)"
proof -
  have e: "clean_data \<lparr>columns = [(LStr ''  Order Date '', Object), (LNum 7, Int64)],
               rows = [[Str '' x '', Num 1], [Str ''x'', Num 1]]\<rparr>
     = Inr \<lparr>columns = [(LStr ''order_date'', Object), (LStr ''7'', Int64)], rows = [[Str ''x'', Num 1]]\<rparr>"
    by code_simp
  with clean_data_normalizes_first
    [of "\<lparr>columns = [(LStr ''  Order Date '', Object), (LNum 7, Int64)],
               rows = [[Str '' x '', Num 1], [Str ''x'', Num 1]]\<rparr>"
        "\<lparr>columns = [(LStr ''order_date'', Object), (LStr ''7'', Int64)], rows = [[Str ''x'', Num 1]]\<rparr>"]
  show ?thesis by blast
qed

text \<open>
  C1 fails on the code. In an object column that holds strings and other values,
  \<^verbatim>\<open>.str.strip()\<close> turns every value that is not a string into \<^verbatim>\<open>NaN\<close>: the
  number 1 of the column \<^verbatim>\<open>["x", 1]\<close> is lost.
\<close>

theorem clean_data_mixed_column:
  "clean_data \<lparr>columns = [(LStr ''a'', Object)], rows = [[Str ''x''], [Num 1]]\<rparr>
     = Inr \<lparr>columns = [(LStr ''a'', Object)], rows = [[Str ''x''], [Missing]]\<rparr>"
  by code_simp




text \<open>
  C9. The Cleaner is idempotent on its own output: cleaning the table that the Cleaner
  returned returns that table again (and an exception of the first call is the result
  of the composition), for every well-formed table.
\<close>

theorem clean_data_idempotent:
  assumes "wf_table df"
  shows "(case clean_data df of Inl e \<Rightarrow> Inl e | Inr df' \<Rightarrow> clean_data df') = clean_data df"
  using clean_data_again [OF assms] by (cases "clean_data df") simp_all

theorem clean_data_idempotent_witness:
  "wf_table \<lparr>columns = [(LStr '' Name'', Object), (LStr ''Amount'', Int64)],
             rows = [[Str '' bob '', Num 1], [Str ''bob'', Num 1], [Str '' '', Num 2], [Num 3, Num 4]]\<rparr> \<and>
   clean_data \<lparr>columns = [(LStr '' Name'', Object), (LStr ''Amount'', Int64)],
             rows = [[Str '' bob '', Num 1], [Str ''bob'', Num 1], [Str '' '', Num 2], [Num 3, Num 4]]\<rparr>
     = Inr \<lparr>columns = [(LStr ''name'', Object), (LStr ''amount'', Int64)],
             rows = [[Str ''bob'', Num 1], [Missing, Num 2], [Missing, Num 4]]\<rparr> \<and>
   clean_data \<lparr>columns = [(LStr ''name'', Object), (LStr ''amount'', Int64)],
             rows = [[Str ''bob'', Num 1], [Missing, Num 2], [Missing, Num 4]]\<rparr>
     = Inr \<lparr>columns = [(LStr ''name'', Object), (LStr ''amount'', Int64)],
             rows = [[Str ''bob'', Num 1], [Missing, Num 2], [Missing, Num 4]]\<rparr>"
proof -
  let ?T = "\<lparr>columns = [(LStr '' Name'', Object), (LStr ''Amount'', Int64)],
             rows = [[Str '' bob '', Num 1], [Str ''bob'', Num 1], [Str '' '', Num 2], [Num 3, Num 4]]\<rparr>"
  let ?T1 = "\<lparr>columns = [(LStr ''name'', Object), (LStr ''amount'', Int64)],
             rows = [[Str ''bob'', Num 1], [Missing, Num 2], [Missing, Num 4]]\<rparr>"
  have w: "wf_table ?T" by code_simp
  have e: "clean_data ?T = Inr ?T1" by code_simp
  from clean_data_idempotent [OF w] have "clean_data ?T1 = Inr ?T1" unfolding e by simp
  with w e show ?thesis by blast
qed

section \<open>The report\<close>

text \<open>
  C7. The report table has the single column \<^verbatim>\<open>Validation_Issues\<close>. For an empty
  issue sequence it has exactly one row, holding \<^verbatim>\<open>No issues found\<close>; for a sequence
  that is not empty it has one row per issue, holding the issues in their order.
\<close>

theorem report_table:
  "labels (report issues) = [LStr ''Validation_Issues''] \<and>
   rows (report []) = [[Str ''No issues found'']] \<and>
   rows (report (i # issues)) = map (\<lambda>s. [Str s]) (i # issues) \<and>
   length (rows (report (i # issues))) = length (i # issues)"
  by (simp add: report_def DataFrame1_def labels_def)

section \<open>The Validator\<close>

text \<open>
  C5. For a table and a required column that the table has, the missing-value count
  of the Validator is the number of rows whose cell in that column is the missing
  marker. A row whose cell is the empty string is not among them: the rows counted
  and the rows holding an empty string together never exceed the rows of the table.
  The issue reported for the column is built from that count.
\<close>

theorem missing_count_counts_missing:
  assumes "wf_table df" and "distinct (labels df)" and "LStr name \<in> set (labels df)"
  shows "missing_count df (LStr name) = Inr (missing_in df (LStr name)) \<and>
         missing_in df (LStr name)
           + length (filter (\<lambda>r. cell_of df r (LStr name) = Some (Str [])) (rows df))
           \<le> length (rows df) \<and>
         validate_data df [name] =
           Inr ((if 0 < dup_count df then [dup_issue (dup_count df)] else []) @
                (if 0 < missing_in df (LStr name)
                 then [missing_values_issue name (missing_in df (LStr name))] else []))"
proof -
  have 1: "missing_count df (LStr name) = Inr (missing_in df (LStr name))"
    using assms by (rule missing_count_eq)
  have 2: "missing_in df (LStr name)
           + length (filter (\<lambda>r. cell_of df r (LStr name) = Some (Str [])) (rows df))
           \<le> length (rows df)"
    unfolding missing_in_def by (rule two_filters) simp
  have 3: "validate_data df [name] =
           Inr ((if 0 < dup_count df then [dup_issue (dup_count df)] else []) @
                (if 0 < missing_in df (LStr name)
                 then [missing_values_issue name (missing_in df (LStr name))] else []))"
    using assms(3) by (simp add: validate_data_def Let_def 1)
  from 1 2 3 show ?thesis by blast
qed

theorem missing_count_counts_missing_witness:
  "wf_table \<lparr>columns = [(LStr ''amount'', Object)], rows = [[Str ''''], [Missing], [Str ''7'']]\<rparr> \<and>
   distinct (labels \<lparr>columns = [(LStr ''amount'', Object)], rows = [[Str ''''], [Missing], [Str ''7'']]\<rparr>) \<and>
   LStr ''amount'' \<in> set (labels \<lparr>columns = [(LStr ''amount'', Object)], rows = [[Str ''''], [Missing], [Str ''7'']]\<rparr>) \<and>
   missing_count \<lparr>columns = [(LStr ''amount'', Object)], rows = [[Str ''''], [Missing], [Str ''7'']]\<rparr>
     (LStr ''amount'') = Inr 1 \<and>
   validate_data \<lparr>columns = [(LStr ''amount'', Object)], rows = [[Str ''''], [Missing], [Str ''7'']]\<rparr>
     [''amount''] = Inr [''Column '' @ [CHR 0x27] @ ''amount'' @ [CHR 0x27] @ '' has 1 missing values'']"
proof -
  let ?T = "\<lparr>columns = [(LStr ''amount'', Object)], rows = [[Str ''''], [Missing], [Str ''7'']]\<rparr>"
  have w: "wf_table ?T" by code_simp
  have d: "distinct (labels ?T)" by code_simp
  have m: "LStr ''amount'' \<in> set (labels ?T)" by code_simp
  have n: "missing_in ?T (LStr ''amount'') = 1" by code_simp
  have c: "dup_count ?T = 0" by code_simp
  have s: "missing_values_issue ''amount'' 1 =
      ''Column '' @ [CHR 0x27] @ ''amount'' @ [CHR 0x27] @ '' has 1 missing values''" by code_simp
  from missing_count_counts_missing [OF w d m] w d m show ?thesis
    unfolding n c s by simp
qed



section \<open>Exceptions\<close>

text \<open>
  C2, as amended. \<^verbatim>\<open>normalize_columns\<close> and the report assembly are total functions
  without an error result. On a well-formed table, \<^verbatim>\<open>validate_data\<close> returns its
  issue list whenever the column labels are pairwise distinct, and raises nothing but
  \<^verbatim>\<open>ValueError\<close> otherwise; \<^verbatim>\<open>clean_data\<close> returns a table exactly when every
  object column has a normalized label that no other column has and values that the
  \<^verbatim>\<open>.str\<close> accessor accepts (a string among them, or none that is not null, or
  values of several kinds), and raises \<^verbatim>\<open>AttributeError\<close> otherwise.
\<close>

theorem pure_functions_exceptions:
  assumes "wf_table df"
  shows "(distinct (labels df) \<longrightarrow> (\<exists>issues. validate_data df required_columns = Inr issues)) \<and>
         (\<forall>e. validate_data df required_columns = Inl e \<longrightarrow> e = ValueError) \<and>
         ((\<exists>df'. clean_data df = Inr df') \<longleftrightarrow>
            (\<forall>c\<in>set (select_object (normalize_columns df)).
               \<exists>j. positions (normalize_columns df) c = [j] \<and> str_ok (column df j))) \<and>
         (\<forall>e. clean_data df = Inl e \<longrightarrow> e = AttributeError)"
proof -
  have 1: "distinct (labels df) \<longrightarrow> (\<exists>issues. validate_data df required_columns = Inr issues)"
    by (simp add: validate_data_def Let_def required_loop_distinct)
  have 2: "\<forall>e. validate_data df required_columns = Inl e \<longrightarrow> e = ValueError"
    by (auto simp: validate_data_def Let_def dest: required_loop_error)
  have 3: "\<forall>e. clean_data df = Inl e \<longrightarrow> e = AttributeError"
    by (auto dest: clean_data_error)
  from 1 2 3 clean_data_succeeds_iff [OF assms] show ?thesis by blast
qed

theorem pure_functions_exceptions_witness:
  "wf_table \<lparr>columns = [(LStr ''Date'', Object), (LStr ''Amount'', Int64)],
             rows = [[Str '' x'', Num 1], [Num 5, Missing]]\<rparr> \<and>
   distinct (labels \<lparr>columns = [(LStr ''Date'', Object), (LStr ''Amount'', Int64)],
             rows = [[Str '' x'', Num 1], [Num 5, Missing]]\<rparr>) \<and>
   (\<exists>issues. validate_data \<lparr>columns = [(LStr ''Date'', Object), (LStr ''Amount'', Int64)],
             rows = [[Str '' x'', Num 1], [Num 5, Missing]]\<rparr> [''Amount''] = Inr issues) \<and>
   clean_data \<lparr>columns = [(LStr ''Date'', Object), (LStr ''Amount'', Int64)],
             rows = [[Str '' x'', Num 1], [Num 5, Missing]]\<rparr>
     = Inr \<lparr>columns = [(LStr ''date'', Object), (LStr ''amount'', Int64)],
             rows = [[Str ''x'', Num 1], [Missing, Missing]]\<rparr>"
proof -
  let ?T = "\<lparr>columns = [(LStr ''Date'', Object), (LStr ''Amount'', Int64)],
             rows = [[Str '' x'', Num 1], [Num 5, Missing]]\<rparr>"
  have w: "wf_table ?T" by code_simp
  have d: "distinct (labels ?T)" by code_simp
  have e: "clean_data ?T = Inr \<lparr>columns = [(LStr ''date'', Object), (LStr ''amount'', Int64)],
             rows = [[Str ''x'', Num 1], [Missing, Missing]]\<rparr>" by code_simp
  from pure_functions_exceptions [OF w, of "[''Amount'']"] d
  have "\<exists>issues. validate_data ?T [''Amount''] = Inr issues" by blast
  with w d e show ?thesis by blast
qed

text \<open>
  C2 as stated fails: the labels \<^verbatim>\<open>"A"\<close> and \<^verbatim>\<open>"a"\<close> are distinct, both are
  normalized to \<^verbatim>\<open>"a"\<close>, \<^verbatim>\<open>df["a"]\<close> is then a frame, which has no \<^verbatim>\<open>.str\<close>
  accessor, and \<^verbatim>\<open>clean_data\<close> raises \<^verbatim>\<open>AttributeError\<close>.
\<close>

theorem clean_data_raises:
  "wf_table \<lparr>columns = [(LStr ''A'', Object), (LStr ''a'', Object)], rows = [[Str ''x'', Str ''y'']]\<rparr> \<and>
   distinct (labels \<lparr>columns = [(LStr ''A'', Object), (LStr ''a'', Object)], rows = [[Str ''x'', Str ''y'']]\<rparr>) \<and>
   clean_data \<lparr>columns = [(LStr ''A'', Object), (LStr ''a'', Object)], rows = [[Str ''x'', Str ''y'']]\<rparr>
     = Inl AttributeError"
  by code_simp

end
